theory Spec2Isabelle
  imports Main
begin

section \<open>The task list of CPPCLITODO.cpp\<close>

text \<open>
  The program keeps a \<open>std::vector<Task>\<close>, the static counter \<open>Task::nextId\<close> and the
  file \<open>tasks.txt\<close>. The model passes these three around as one record. What a
  function prints on \<open>std::cout\<close> is returned as a string next to the new state, and
  what it extracts from \<open>std::cin\<close> is a parameter: an \<open>int option\<close> for
  \<open>std::cin >> id\<close> (\<open>None\<close> when the extraction fails) and a string for
  \<open>std::getline\<close>. The file is assumed to be writable when it is saved.
\<close>

subsection \<open>The type \<open>int\<close>\<close>

text \<open>
  An \<open>int\<close> has 32 bits. The model computes with mathematical integers and writes out
  the two places where the source leaves the range: \<open>std::stoi\<close> throws
  \<open>std::out_of_range\<close>, and the increments \<open>nextId++\<close> and \<open>id + 1\<close> have no check in
  the source. At \<open>INT_MAX\<close> they overflow; the compiled program wraps around to
  \<open>INT_MIN\<close> and goes on, and \<open>int_succ\<close> does the same.
\<close>

definition INT_MAX :: int where
  "INT_MAX = 2147483647"

definition INT_MIN :: int where
  "INT_MIN = - 2147483648"

definition int_succ :: "int \<Rightarrow> int" where
  "int_succ n = (if n = INT_MAX then INT_MIN else n + 1)"

text \<open>The exceptions of \<open>std::stoi\<close>; nothing in the program catches them.\<close>

datatype error = invalid_argument | out_of_range

subsection \<open>Characters and decimal numerals\<close>

definition NL :: char where
  "NL = CHR 0x0A"

definition isspace :: "char \<Rightarrow> bool" where
  "isspace c = (c \<in> set [CHR '' '', CHR 0x09, CHR 0x0A, CHR 0x0B, CHR 0x0C, CHR 0x0D])"

definition isdigit :: "char \<Rightarrow> bool" where
  "isdigit c = (c \<in> set ''0123456789'')"

definition digit_char :: "nat \<Rightarrow> char" where
  "digit_char d = ''0123456789'' ! d"

definition digit_val :: "char \<Rightarrow> nat" where
  "digit_val c = of_char c - 48"

text \<open>\<open>operator<<\<close> for an \<open>int\<close>: decimal digits, a minus sign for a negative value.\<close>

fun digits :: "nat \<Rightarrow> string" where
  "digits n = (if n < 10 then [digit_char n] else digits (n div 10) @ [digit_char (n mod 10)])"

declare digits.simps [simp del]

definition show_int :: "int \<Rightarrow> string" where
  "show_int i = (if i < 0 then CHR ''-'' # digits (nat (- i)) else digits (nat i))"

text \<open>
  \<open>std::stoi\<close> (base 10, through \<open>strtol\<close>): leading white space is skipped, one sign
  is accepted, then the longest run of digits is read and what follows is ignored.
  No digit at all throws \<open>std::invalid_argument\<close>, a value outside \<open>int\<close> throws
  \<open>std::out_of_range\<close>.
\<close>

definition digits_val :: "string \<Rightarrow> nat" where
  "digits_val ds = foldl (\<lambda>a c. 10 * a + digit_val c) 0 ds"

definition stoi :: "string \<Rightarrow> error + int" where
  "stoi str =
     (let s1 = dropWhile isspace str;
          neg = (case s1 of [] \<Rightarrow> False | c # _ \<Rightarrow> c = CHR ''-'');
          s2 = (case s1 of [] \<Rightarrow> [] | c # r \<Rightarrow> if c = CHR ''-'' \<or> c = CHR ''+'' then r else s1);
          ds = takeWhile isdigit s2;
          v = (if neg then - int (digits_val ds) else int (digits_val ds))
      in if ds = [] then Inl invalid_argument
         else if v < INT_MIN \<or> INT_MAX < v then Inl out_of_range
         else Inr v)"

subsection \<open>\<open>class Task\<close> and the state of the program\<close>

record Task =
  id_task :: int
  description :: string
  completed :: bool

text \<open>
  The state: the vector \<open>tasks\<close> of \<open>main\<close>, the static member \<open>Task::nextId\<close>, and the
  contents of the file named by \<open>TASKS_FILE\<close> (\<open>None\<close> while the file does not exist).
\<close>

record store =
  tasks :: "Task list"
  nextId :: int
  TASKS_FILE :: "string option"

text \<open>
  The constructor \<open>Task(description)\<close> reads and increments the static counter:
  \<open>id(nextId++)\<close>. It returns the new object and the new value of the counter.
\<close>

definition Task_new :: "string \<Rightarrow> int \<Rightarrow> Task \<times> int" where
  "Task_new d n = (\<lparr>id_task = n, description = d, completed = False\<rparr>, int_succ n)"

subsection \<open>\<open>saveTasksToFile\<close>\<close>

text \<open>
  The \<open>std::ofstream\<close> truncates the file; the loop appends one record after the
  other to the stream. \<open>file_text\<close> is what the stream holds when it is closed.
\<close>

definition file_text :: "Task list \<Rightarrow> string" where
  "file_text ts =
     foldl (\<lambda>out task. out @ show_int (id_task task) @ ''|'' @ description task @ ''|''
                           @ (if completed task then ''1'' else ''0'') @ [NL]) [] ts"

definition saveTasksToFile :: "store \<Rightarrow> store" where
  "saveTasksToFile st = st\<lparr>TASKS_FILE := Some (file_text (tasks st))\<rparr>"

subsection \<open>\<open>std::getline\<close> and \<open>loadTasksFromFile\<close>\<close>

text \<open>
  An input stream is \<open>Some rest\<close> while it is good and \<open>None\<close> once its \<open>eofbit\<close> is
  set. \<open>std::getline\<close> fails (the stream converts to \<open>false\<close>) when the stream is not
  good on entry or when it extracts nothing, the delimiter included; reading up to
  the end of the input succeeds and sets \<open>eofbit\<close>.
\<close>

definition getline :: "string option \<Rightarrow> char \<Rightarrow> (string \<times> string option) option" where
  "getline strm delim =
     (case strm of
        None \<Rightarrow> None
      | Some s \<Rightarrow>
          (let str = takeWhile (\<lambda>c. c \<noteq> delim) s in
           case dropWhile (\<lambda>c. c \<noteq> delim) s of
             [] \<Rightarrow> if str = [] then None else Some (str, None)
           | _ # rest \<Rightarrow> Some (str, Some rest)))"

text \<open>
  The body of the \<open>while\<close> loop of \<open>loadTasksFromFile\<close> for one line. A line that does
  not give three fields is skipped. Otherwise \<open>std::stoi\<close> may throw, the constructor
  increments \<open>nextId\<close>, the setters overwrite \<open>completed\<close> and \<open>id\<close>, and \<open>nextId\<close>
  is raised to \<open>id + 1\<close> when \<open>id >= nextId\<close>.
\<close>

definition load_line :: "string \<Rightarrow> store \<Rightarrow> error + store" where
  "load_line line st =
     (case getline (Some line) CHR ''|'' of
        None \<Rightarrow> Inr st
      | Some (idStr, ss1) \<Rightarrow>
     (case getline ss1 CHR ''|'' of
        None \<Rightarrow> Inr st
      | Some (desc, ss2) \<Rightarrow>
     (case getline ss2 NL of
        None \<Rightarrow> Inr st
      | Some (completedStr, ss3) \<Rightarrow>
     (case stoi idStr of
        Inl e \<Rightarrow> Inl e
      | Inr i \<Rightarrow>
     (case Task_new desc (nextId st) of
        (task, n) \<Rightarrow>
          (let task1 = task\<lparr>completed := (completedStr = ''1'')\<rparr>;
               task2 = task1\<lparr>id_task := i\<rparr>;
               st1 = st\<lparr>tasks := tasks st @ [task2], nextId := n\<rparr>
           in if n \<le> i then Inr (st1\<lparr>nextId := int_succ i\<rparr>) else Inr st1))))))"

fun stream_size :: "string option \<Rightarrow> nat" where
  "stream_size None = 0"
| "stream_size (Some s) = Suc (length s)"

lemma getline_consumes:
  "getline strm delim = Some (str, strm') \<Longrightarrow> stream_size strm' < stream_size strm"
proof (cases strm)
  case None
  assume "getline strm delim = Some (str, strm')"
  with None show ?thesis by (simp add: getline_def)
next
  case (Some s)
  assume g: "getline strm delim = Some (str, strm')"
  have len: "length (dropWhile (\<lambda>c. c \<noteq> delim) s) \<le> length s"
    by (rule length_dropWhile_le)
  show ?thesis
  proof (cases "dropWhile (\<lambda>c. c \<noteq> delim) s")
    case Nil
    with g Some have "strm' = None" by (simp add: getline_def Let_def split: if_splits)
    with Some show ?thesis by simp
  next
    case (Cons c rest)
    with g Some have "strm' = Some rest" by (simp add: getline_def Let_def)
    with len Some Cons show ?thesis by simp
  qed
qed

function load_loop :: "string option \<Rightarrow> store \<Rightarrow> error + store" where
  "load_loop strm st =
     (case getline strm NL of
        None \<Rightarrow> Inr st
      | Some (line, strm') \<Rightarrow>
          (case load_line line st of
             Inl e \<Rightarrow> Inl e
           | Inr st' \<Rightarrow> load_loop strm' st'))"
  by pat_completeness auto
termination
  by (relation "measure (\<lambda>(strm, st). stream_size strm)") (auto dest: getline_consumes)

declare load_loop.simps [simp del]

text \<open>\<open>if (!file.is_open()) return;\<close> when the file does not exist.\<close>

definition loadTasksFromFile :: "store \<Rightarrow> error + store" where
  "loadTasksFromFile st =
     (case TASKS_FILE st of
        None \<Rightarrow> Inr st
      | Some content \<Rightarrow> load_loop (Some content) st)"

text \<open>
  The state in which \<open>main\<close> calls \<open>loadTasksFromFile\<close>: an empty vector, the
  counter at its initial value 1, and whatever \<open>tasks.txt\<close> is on disk.
\<close>

definition main_start :: "string option \<Rightarrow> store" where
  "main_start f = \<lparr>tasks = [], nextId = 1, TASKS_FILE = f\<rparr>"

subsection \<open>The menu functions\<close>

text \<open>One line of a task listing, as \<open>viewTasks\<close> and the three functions below print it.\<close>

definition print_task :: "Task \<Rightarrow> string" where
  "print_task task =
     ''['' @ (if completed task then ''x'' else '' '') @ ''] '' @ show_int (id_task task)
       @ '': '' @ description task @ [NL]"

definition viewTasks :: "Task list \<Rightarrow> string" where
  "viewTasks ts =
     (if ts = [] then ''No tasks to display.'' @ [NL]
      else [NL] @ ''====== TASK LIST ======'' @ [NL] @ concat (map print_task ts)
             @ ''======================='' @ [NL] @ [NL])"

definition addTask :: "string \<Rightarrow> store \<Rightarrow> string \<times> store" where
  "addTask cin_line st =
     (case Task_new cin_line (nextId st) of
        (newTask, n) \<Rightarrow>
          (''Enter task description: '' @ ''Task added.'' @ [NL] @ [NL],
           saveTasksToFile (st\<lparr>tasks := tasks st @ [newTask], nextId := n\<rparr>)))"

text \<open>
  The three functions below search the vector with the same loop: the first element
  whose \<open>getId()\<close> equals the id that was read. \<open>find_task\<close> gives its position.
\<close>

fun find_task :: "int \<Rightarrow> Task list \<Rightarrow> nat option" where
  "find_task i [] = None"
| "find_task i (task # ts) =
     (if id_task task = i then Some 0 else map_option Suc (find_task i ts))"

definition toggleTaskComplete :: "int option \<Rightarrow> store \<Rightarrow> string \<times> store" where
  "toggleTaskComplete cin_id st =
     (if tasks st = [] then (''No tasks to toggle.'' @ [NL], st)
      else
        (let out = [NL] @ ''Current tasks:'' @ [NL] @ concat (map print_task (tasks st)) @ [NL]
                     @ ''Enter the ID of the task to toggle completion: ''
         in case cin_id of
              None \<Rightarrow> (out @ ''Invalid input.'' @ [NL], st)
            | Some i \<Rightarrow>
                (case find_task i (tasks st) of
                   Some k \<Rightarrow>
                     (let task = (tasks st ! k)\<lparr>completed := \<not> completed (tasks st ! k)\<rparr> in
                      (out @ ''Task '' @ show_int i @ '' marked as ''
                           @ (if completed task then ''complete.'' else ''incomplete.'')
                           @ [NL] @ [NL],
                       saveTasksToFile (st\<lparr>tasks := (tasks st)[k := task]\<rparr>)))
                 | None \<Rightarrow>
                     (out @ ''Task with ID '' @ show_int i @ '' not found.'' @ [NL] @ [NL], st))))"

definition deleteTask :: "int option \<Rightarrow> store \<Rightarrow> string \<times> store" where
  "deleteTask cin_id st =
     (if tasks st = [] then (''No tasks to delete.'' @ [NL], st)
      else
        (let out = [NL] @ ''Current tasks:'' @ [NL] @ concat (map print_task (tasks st))
                     @ ''Enter the ID of the task to delete: ''
         in case cin_id of
              None \<Rightarrow> (out @ ''Invalid input.'' @ [NL], st)
            | Some i \<Rightarrow>
                (case find_task i (tasks st) of
                   Some k \<Rightarrow>
                     (out @ ''Task '' @ show_int i @ '' deleted.'' @ [NL] @ [NL],
                      saveTasksToFile (st\<lparr>tasks := take k (tasks st) @ drop (Suc k) (tasks st)\<rparr>))
                 | None \<Rightarrow>
                     (out @ ''Task with ID '' @ show_int i @ '' not found.'' @ [NL] @ [NL], st))))"

definition editTask :: "int option \<Rightarrow> string \<Rightarrow> store \<Rightarrow> string \<times> store" where
  "editTask cin_id cin_line st =
     (if tasks st = [] then (''No tasks to edit.'' @ [NL], st)
      else
        (let out = [NL] @ ''Current tasks:'' @ [NL] @ concat (map print_task (tasks st)) @ [NL]
                     @ ''Enter the ID of the task to edit: ''
         in case cin_id of
              None \<Rightarrow> (out @ ''Invalid input.'' @ [NL], st)
            | Some i \<Rightarrow>
                (case find_task i (tasks st) of
                   Some k \<Rightarrow>
                     (out @ ''Enter new description: '' @ ''Task '' @ show_int i @ '' updated.''
                          @ [NL] @ [NL],
                      saveTasksToFile
                        (st\<lparr>tasks := (tasks st)[k := (tasks st ! k)\<lparr>description := cin_line\<rparr>]\<rparr>))
                 | None \<Rightarrow>
                     (out @ ''Task with ID '' @ show_int i @ '' not found.'' @ [NL] @ [NL], st))))"

subsection \<open>\<open>main\<close>\<close>

text \<open>
  One pass through the loop of \<open>main\<close> is given by the choice that \<open>getMenuInput\<close>
  returns (1 to 6), the id the chosen function would extract and the line it would
  read. The loop stops at choice 6, or when the input given to the model is used up.
  Only the state is followed here; the texts printed are those of the functions above.
\<close>

type_synonym request = "int \<times> int option \<times> string"

fun main_loop :: "request list \<Rightarrow> store \<Rightarrow> store" where
  "main_loop [] st = st"
| "main_loop ((menuInput, cin_id, cin_line) # rest) st =
     (if menuInput = 1 then main_loop rest (snd (addTask cin_line st))
      else if menuInput = 2 then main_loop rest st
      else if menuInput = 3 then main_loop rest (snd (toggleTaskComplete cin_id st))
      else if menuInput = 4 then main_loop rest (snd (deleteTask cin_id st))
      else if menuInput = 5 then main_loop rest (snd (editTask cin_id cin_line st))
      else if menuInput = 6 then st
      else main_loop rest st)"

definition main :: "string option \<Rightarrow> request list \<Rightarrow> error + store" where
  "main f reqs =
     (case loadTasksFromFile (main_start f) of
        Inl e \<Rightarrow> Inl e
      | Inr st \<Rightarrow> Inr (main_loop reqs st))"

subsection \<open>The storage format in the words of the specification\<close>

text \<open>
  The specification describes the file as one line per task, each line being three
  fields joined by the delimiter \<open>|\<close>: the id as a decimal integer literal, the
  description, and \<open>1\<close> or \<open>0\<close> for the completed flag. The definitions below follow
  that description and are compared with \<open>saveTasksToFile\<close> and \<open>load_line\<close>.
\<close>

fun join_fields :: "string list \<Rightarrow> string" where
  "join_fields [] = []"
| "join_fields [f] = f"
| "join_fields (f # g # fs) = f @ ''|'' @ join_fields (g # fs)"

definition spec_line :: "Task \<Rightarrow> string" where
  "spec_line task =
     join_fields [show_int (id_task task), description task,
                  if completed task then ''1'' else ''0'']"

definition decimal_literal :: "string \<Rightarrow> int \<Rightarrow> bool" where
  "decimal_literal s i =
     (case s of
        [] \<Rightarrow> False
      | c # r \<Rightarrow>
          if c = CHR ''-'' then r \<noteq> [] \<and> list_all isdigit r \<and> i = - int (digits_val r)
          else list_all isdigit s \<and> i = int (digits_val s))"


subsection \<open>Reporting an id that is not in the list\<close>

text \<open>
  \<open>toggleTaskComplete\<close>, \<open>deleteTask\<close> and \<open>editTask\<close> end with the same message when
  their loop finds no task with the id. A text signals "not found" for an id when it
  ends with that message.
\<close>

definition NotFound_text :: "int \<Rightarrow> string" where
  "NotFound_text i = ''Task with ID '' @ show_int i @ '' not found.'' @ [NL] @ [NL]"

definition signals_NotFound :: "int \<Rightarrow> string \<Rightarrow> bool" where
  "signals_NotFound i out =
     (length (NotFound_text i) \<le> length out
      \<and> drop (length out - length (NotFound_text i)) out = NotFound_text i)"

subsection \<open>Runs and invariants\<close>

text \<open>
  \<open>addTask_ids\<close> calls \<open>addTask\<close> once for each description of a list, in order, and
  collects the id of the task each call has created, which is the one it appended.
\<close>

fun addTask_ids :: "string list \<Rightarrow> store \<Rightarrow> int list \<times> store" where
  "addTask_ids [] st = ([], st)"
| "addTask_ids (d # ds) st =
     (case addTask d st of
        (out, st1) \<Rightarrow>
          (case addTask_ids ds st1 of
             (ids, st2) \<Rightarrow> (id_task (last (tasks st1)) # ids, st2)))"

text \<open>
  The number of calls of \<open>addTask\<close> that \<open>main_loop\<close> makes: the passes with choice 1
  before the first choice 6.
\<close>

definition count_addTask :: "request list \<Rightarrow> nat" where
  "count_addTask reqs =
     length (filter (\<lambda>req. fst req = 1) (takeWhile (\<lambda>req. fst req \<noteq> 6) reqs))"

text \<open>
  The two invariants of the data model together: the ids in the list are pairwise
  distinct, and every id in the list is below \<open>nextId\<close>.
\<close>

definition store_inv :: "store \<Rightarrow> bool" where
  "store_inv st =
     (distinct (map id_task (tasks st)) \<and> (\<forall>task\<in>set (tasks st). id_task task < nextId st))"

section \<open>Decimal numerals\<close>

lemma digit_char_cases:
  assumes "d < 10"
  shows "d = 0 \<or> d = 1 \<or> d = 2 \<or> d = 3 \<or> d = 4 \<or> d = 5 \<or> d = 6 \<or> d = 7 \<or> d = 8 \<or> d = (9::nat)"
  using assms by arith

lemma isdigit_digit_char: "d < 10 \<Longrightarrow> isdigit (digit_char d)"
  using digit_char_cases [of d] by (auto simp: isdigit_def digit_char_def)

lemma digit_val_digit_char: "d < 10 \<Longrightarrow> digit_val (digit_char d) = d"
  using digit_char_cases [of d] by (auto simp: digit_val_def digit_char_def)

lemma isdigit_not_special:
  assumes "isdigit c"
  shows "c \<noteq> CHR ''|''" and "c \<noteq> NL" and "\<not> isspace c" and "c \<noteq> CHR ''-''" and "c \<noteq> CHR ''+''"
  using assms by (auto simp: isdigit_def isspace_def NL_def)

lemma digits_isdigit: "list_all isdigit (digits n)"
proof (induction n rule: digits.induct)
  case (1 n)
  show ?case
  proof (cases "n < 10")
    case True
    then show ?thesis by (subst digits.simps) (simp add: isdigit_digit_char)
  next
    case False
    with 1 show ?thesis by (subst digits.simps) (simp add: isdigit_digit_char)
  qed
qed

lemma digits_nonempty: "digits n \<noteq> []"
  by (subst digits.simps) simp

lemma digits_val_snoc: "digits_val (ds @ [c]) = 10 * digits_val ds + digit_val c"
  by (simp add: digits_val_def)

lemma digits_val_digits: "digits_val (digits n) = n"
proof (induction n rule: digits.induct)
  case (1 n)
  show ?case
  proof (cases "n < 10")
    case True
    then show ?thesis by (subst digits.simps) (simp add: digits_val_def digit_val_digit_char)
  next
    case False
    with 1 have "digits_val (digits (n div 10)) = n div 10" by simp
    with False show ?thesis
      by (subst digits.simps) (simp add: digits_val_snoc digit_val_digit_char)
  qed
qed

lemma stoi_digits:
  assumes "int n \<le> INT_MAX"
  shows "stoi (digits n) = Inr (int n)"
proof -
  obtain c r where cr: "digits n = c # r"
    using digits_nonempty [of n] by (cases "digits n") auto
  have all: "list_all isdigit (c # r)" using digits_isdigit [of n] cr by simp
  then have c: "isdigit c" by simp
  have tw: "takeWhile isdigit (c # r) = c # r"
    using all by (simp only: takeWhile_eq_all_conv list_all_iff) 
  have v: "digits_val (c # r) = n" using digits_val_digits [of n] cr by simp
  have lo: "\<not> int n < INT_MIN" by (simp add: INT_MIN_def)
  show ?thesis
    using assms lo isdigit_not_special [OF c] v
    by (simp add: stoi_def cr Let_def tw del: takeWhile.simps)
qed

lemma stoi_minus_digits:
  assumes "INT_MIN \<le> - int n"
  shows "stoi (CHR ''-'' # digits n) = Inr (- int n)"
proof -
  have all: "list_all isdigit (digits n)" by (rule digits_isdigit)
  have tw: "takeWhile isdigit (digits n) = digits n"
    using all by (simp only: takeWhile_eq_all_conv list_all_iff) 
  have hi: "\<not> INT_MAX < - int n" by (simp add: INT_MAX_def)
  have sp: "\<not> isspace CHR ''-''" by (simp add: isspace_def)
  show ?thesis
    using assms hi digits_nonempty [of n] sp
    by (simp add: stoi_def Let_def digits_val_digits tw)
qed

lemma stoi_show_int:
  assumes "INT_MIN \<le> i" and "i \<le> INT_MAX"
  shows "stoi (show_int i) = Inr i"
proof (cases "i < 0")
  case True
  with assms stoi_minus_digits [of "nat (- i)"] show ?thesis by (simp add: show_int_def)
next
  case False
  with assms stoi_digits [of "nat i"] show ?thesis by (simp add: show_int_def)
qed

lemma show_int_no_special:
  "CHR ''|'' \<notin> set (show_int i)" "NL \<notin> set (show_int i)"
  using digits_isdigit [of "nat i"] digits_isdigit [of "nat (- i)"] isdigit_not_special(1,2)
  by (auto simp: show_int_def list_all_iff NL_def)

section \<open>What \<open>saveTasksToFile\<close> writes\<close>

lemma foldl_append_concat:
  "foldl (\<lambda>out x. out @ f x) acc xs = acc @ concat (map f xs)"
  by (induction xs arbitrary: acc) simp_all

lemma file_text_concat: "file_text ts = concat (map (\<lambda>task. spec_line task @ [NL]) ts)"
proof -
  have "file_text ts =
      foldl (\<lambda>out task. out @ (spec_line task @ [NL])) [] ts"
    by (simp add: file_text_def spec_line_def)
  then show ?thesis by (simp only: foldl_append_concat append_Nil)
qed

lemma decimal_literal_show_int: "decimal_literal (show_int i) i"
proof (cases "i < 0")
  case True
  then show ?thesis
    by (simp add: show_int_def decimal_literal_def digits_nonempty digits_isdigit digits_val_digits)
next
  case False
  obtain c r where cr: "digits (nat i) = c # r"
    using digits_nonempty [of "nat i"] by (cases "digits (nat i)") auto
  have "isdigit c" using digits_isdigit [of "nat i"] cr by simp
  then have "c \<noteq> CHR ''-''" by (rule isdigit_not_special)
  moreover have "list_all isdigit (c # r)" using digits_isdigit [of "nat i"] cr by simp
  moreover have "digits_val (c # r) = nat i" using digits_val_digits [of "nat i"] cr by simp
  ultimately show ?thesis using False
    by (simp add: show_int_def decimal_literal_def cr)
qed

lemma spec_line_newlines:
  assumes "NL \<notin> set (description task)"
  shows "filter (\<lambda>c. c = NL) (spec_line task @ [NL]) = [NL]"
proof -
  have "filter (\<lambda>c. c = NL) (show_int (id_task task)) = []"
    using show_int_no_special(2) [of "id_task task"] by (auto simp: filter_empty_conv)
  moreover have "filter (\<lambda>c. c = NL) (description task) = []"
    using assms by (auto simp: filter_empty_conv)
  ultimately show ?thesis by (simp add: spec_line_def NL_def)
qed

lemma file_text_newlines:
  assumes "\<forall>task\<in>set ts. NL \<notin> set (description task)"
  shows "length (filter (\<lambda>c. c = NL) (file_text ts)) = length ts"
  using assms
proof (induction ts)
  case Nil
  then show ?case by (simp add: file_text_concat)
next
  case (Cons t ts)
  then have "NL \<notin> set (description t)" by simp
  then have one: "length (filter (\<lambda>c. c = NL) (spec_line t @ [NL])) = 1"
    using spec_line_newlines [of t] by simp
  have "file_text (t # ts) = (spec_line t @ [NL]) @ file_text ts"
    by (simp add: file_text_concat)
  then have "length (filter (\<lambda>c. c = NL) (file_text (t # ts))) =
      length (filter (\<lambda>c. c = NL) (spec_line t @ [NL])) + length (filter (\<lambda>c. c = NL) (file_text ts))"
    by (simp only: filter_append length_append)
  with one Cons show ?case by simp
qed

lemma scenario_toggle:
  "TASKS_FILE (snd (toggleTaskComplete (Some 1)
       \<lparr>tasks = [\<lparr>id_task = 1, description = ''A'', completed = False\<rparr>,
                 \<lparr>id_task = 2, description = ''B'', completed = True\<rparr>],
        nextId = n, TASKS_FILE = f\<rparr>))
     = Some (''1|A|1'' @ [NL] @ ''2|B|1'' @ [NL])"
  by (simp add: toggleTaskComplete_def saveTasksToFile_def file_text_def show_int_def
      digits.simps digit_char_def Let_def)

text \<open>
  Claim C7. \<open>saveTasksToFile\<close> replaces the file by one line per task, in the order
  of the vector: the id as a decimal integer literal, the description and the
  completed flag (\<open>1\<close> for true, \<open>0\<close> for false), joined by \<open>|\<close>, each line ended
  by a newline; when no description holds a newline the file has as many newlines
  as there are tasks. The vector and \<open>nextId\<close> are not changed. In the scenario of
  the specification, toggling task 1 of \<open>[{1,"A",false},{2,"B",true}]\<close> leaves a file
  that reads \<open>1|A|1\<close> and \<open>2|B|1\<close>.
\<close>

theorem saveTasksToFile_format:
  "(\<exists>text. TASKS_FILE (saveTasksToFile st) = Some text
        \<and> text = concat (map (\<lambda>task. spec_line task @ [NL]) (tasks st))
        \<and> ((\<forall>task\<in>set (tasks st). NL \<notin> set (description task))
             \<longrightarrow> length (filter (\<lambda>c. c = NL) text) = length (tasks st)))
   \<and> tasks (saveTasksToFile st) = tasks st
   \<and> nextId (saveTasksToFile st) = nextId st
   \<and> spec_line task =
        show_int (id_task task) @ ''|'' @ description task @ ''|''
          @ (if completed task then ''1'' else ''0'')
   \<and> decimal_literal (show_int i) i
   \<and> TASKS_FILE (snd (toggleTaskComplete (Some 1)
         \<lparr>tasks = [\<lparr>id_task = 1, description = ''A'', completed = False\<rparr>,
                   \<lparr>id_task = 2, description = ''B'', completed = True\<rparr>],
          nextId = n, TASKS_FILE = f\<rparr>))
       = Some (''1|A|1'' @ [NL] @ ''2|B|1'' @ [NL])"
proof -
  have "TASKS_FILE (saveTasksToFile st) = Some (file_text (tasks st))"
    by (simp add: saveTasksToFile_def)
  moreover have "file_text (tasks st) = concat (map (\<lambda>task. spec_line task @ [NL]) (tasks st))"
    by (rule file_text_concat)
  moreover have "(\<forall>task\<in>set (tasks st). NL \<notin> set (description task))
      \<longrightarrow> length (filter (\<lambda>c. c = NL) (file_text (tasks st))) = length (tasks st)"
    using file_text_newlines [of "tasks st"] by blast
  ultimately have first: "\<exists>text. TASKS_FILE (saveTasksToFile st) = Some text
        \<and> text = concat (map (\<lambda>task. spec_line task @ [NL]) (tasks st))
        \<and> ((\<forall>task\<in>set (tasks st). NL \<notin> set (description task))
             \<longrightarrow> length (filter (\<lambda>c. c = NL) text) = length (tasks st))"
    by simp
  have frame: "tasks (saveTasksToFile st) = tasks st" "nextId (saveTasksToFile st) = nextId st"
    by (simp_all add: saveTasksToFile_def)
  have line: "spec_line task =
        show_int (id_task task) @ ''|'' @ description task @ ''|''
          @ (if completed task then ''1'' else ''0'')"
    by (simp add: spec_line_def)
  from first frame line decimal_literal_show_int [of i] scenario_toggle [of n f]
  show ?thesis by (intro conjI)
qed

theorem saveTasksToFile_format_witness:
  "TASKS_FILE (saveTasksToFile
       \<lparr>tasks = [\<lparr>id_task = 1, description = ''A'', completed = False\<rparr>,
                 \<lparr>id_task = 20, description = ''B|c'', completed = True\<rparr>],
        nextId = 21, TASKS_FILE = None\<rparr>)
     = Some (''1|A|0'' @ [NL] @ ''20|B|c|1'' @ [NL])
   \<and> length (filter (\<lambda>c. c = NL) (''1|A|0'' @ [NL] @ ''20|B|c|1'' @ [NL])) = 2"
  using saveTasksToFile_format [of
       "\<lparr>tasks = [\<lparr>id_task = 1, description = ''A'', completed = False\<rparr>,
                 \<lparr>id_task = 20, description = ''B|c'', completed = True\<rparr>],
        nextId = 21, TASKS_FILE = None\<rparr>"]
  by (simp add: spec_line_def show_int_def digits.simps digit_char_def NL_def)

section \<open>Searching, toggling, deleting and editing\<close>

lemma find_task_None: "find_task i ts = None \<longleftrightarrow> i \<notin> id_task ` set ts"
  by (induction ts) auto

lemma find_task_Some:
  "find_task i ts = Some k \<Longrightarrow>
     k < length ts \<and> id_task (ts ! k) = i \<and> (\<forall>j<k. id_task (ts ! j) \<noteq> i)"
proof (induction ts arbitrary: k)
  case Nil
  then show ?case by simp
next
  case (Cons t ts)
  show ?case
  proof (cases "id_task t = i")
    case True
    with Cons.prems show ?thesis by simp
  next
    case False
    with Cons.prems obtain k' where k': "find_task i ts = Some k'" "k = Suc k'"
      by auto
    from Cons.IH [OF k'(1)] False k'(2) show ?thesis
      by (auto simp: nth_Cons split: nat.splits)
  qed
qed

lemma find_task_present:
  "i \<in> id_task ` set ts \<Longrightarrow> \<exists>k. find_task i ts = Some k"
  using find_task_None [of i ts] by (cases "find_task i ts") auto

lemma find_task_same_ids:
  "map id_task ts' = map id_task ts \<Longrightarrow> find_task i ts' = find_task i ts"
proof (induction ts arbitrary: ts')
  case Nil
  then show ?case by simp
next
  case (Cons t ts)
  then obtain t' ts'' where "ts' = t' # ts''" "id_task t' = id_task t" "map id_task ts'' = map id_task ts"
    by (cases ts') auto
  with Cons.IH [of ts''] show ?case by simp
qed

lemma map_update_same_field:
  assumes "f t' = f (ts ! k)"
  shows "map f (ts[k := t']) = map f ts"
proof (cases "k < length ts")
  case True
  have "map f (ts[k := t']) = (map f ts)[k := f (ts ! k)]"
    using assms by (simp add: map_update)
  also have "\<dots> = (map f ts)[k := map f ts ! k]" using True by simp
  also have "\<dots> = map f ts" by (rule list_update_id)
  finally show ?thesis .
next
  case False
  then have "ts[k := t'] = ts" by (intro list_update_beyond) simp
  then show ?thesis by simp
qed

lemma signals_NotFound_append: "signals_NotFound i (pre @ NotFound_text i)"
  by (simp add: signals_NotFound_def)

text \<open>
  Claim C3, as the specification states it, fails on the empty list: there
  \<open>toggleTaskComplete\<close> and \<open>deleteTask\<close> return at their first test, before an id is read,
  and print "No tasks to toggle." and "No tasks to delete." and not the message for an
  id that was not found.
\<close>

theorem absent_id_empty_store_counterexample:
  "1 \<notin> id_task ` set (tasks (main_start None))
   \<and> fst (toggleTaskComplete (Some 1) (main_start None)) = ''No tasks to toggle.'' @ [NL]
   \<and> \<not> signals_NotFound 1 (fst (toggleTaskComplete (Some 1) (main_start None)))
   \<and> fst (deleteTask (Some 1) (main_start None)) = ''No tasks to delete.'' @ [NL]
   \<and> \<not> signals_NotFound 1 (fst (deleteTask (Some 1) (main_start None)))"
  by (simp add: main_start_def toggleTaskComplete_def deleteTask_def signals_NotFound_def
      NotFound_text_def)

text \<open>
  Claim C3, amended. For every state and every id that no task of the list has,
  \<open>toggleTaskComplete\<close> and \<open>deleteTask\<close> return the state as it was: the same list (so
  \<open>viewTasks\<close> prints what it printed before), the same \<open>nextId\<close> and the same file,
  whatever the file held, so nothing was written. When the list is not empty the text
  they print ends with the message that the id was not found; when it is empty they
  report that there are no tasks.
\<close>

theorem absent_id_no_change:
  assumes "i \<notin> id_task ` set (tasks st)"
  shows "snd (toggleTaskComplete (Some i) st) = st
     \<and> snd (deleteTask (Some i) st) = st
     \<and> viewTasks (tasks (snd (toggleTaskComplete (Some i) st))) = viewTasks (tasks st)
     \<and> viewTasks (tasks (snd (deleteTask (Some i) st))) = viewTasks (tasks st)
     \<and> (tasks st \<noteq> [] \<longrightarrow>
           signals_NotFound i (fst (toggleTaskComplete (Some i) st))
         \<and> signals_NotFound i (fst (deleteTask (Some i) st)))
     \<and> (tasks st = [] \<longrightarrow>
           fst (toggleTaskComplete (Some i) st) = ''No tasks to toggle.'' @ [NL]
         \<and> fst (deleteTask (Some i) st) = ''No tasks to delete.'' @ [NL])"
proof -
  from assms have none: "find_task i (tasks st) = None" by (simp add: find_task_None)
  have t: "snd (toggleTaskComplete (Some i) st) = st"
    using none by (simp add: toggleTaskComplete_def Let_def)
  have d: "snd (deleteTask (Some i) st) = st"
    using none by (simp add: deleteTask_def Let_def)
  have nf: "tasks st \<noteq> [] \<longrightarrow>
           signals_NotFound i (fst (toggleTaskComplete (Some i) st))
         \<and> signals_NotFound i (fst (deleteTask (Some i) st))"
  proof
    assume ne: "tasks st \<noteq> []"
    have "fst (toggleTaskComplete (Some i) st) =
        ([NL] @ ''Current tasks:'' @ [NL] @ concat (map print_task (tasks st)) @ [NL]
           @ ''Enter the ID of the task to toggle completion: '') @ NotFound_text i"
      using none ne by (simp add: toggleTaskComplete_def Let_def NotFound_text_def)
    moreover have "fst (deleteTask (Some i) st) =
        ([NL] @ ''Current tasks:'' @ [NL] @ concat (map print_task (tasks st))
           @ ''Enter the ID of the task to delete: '') @ NotFound_text i"
      using none ne by (simp add: deleteTask_def Let_def NotFound_text_def)
    ultimately show "signals_NotFound i (fst (toggleTaskComplete (Some i) st))
         \<and> signals_NotFound i (fst (deleteTask (Some i) st))"
      by (simp only: signals_NotFound_append)
  qed
  have em: "tasks st = [] \<longrightarrow>
           fst (toggleTaskComplete (Some i) st) = ''No tasks to toggle.'' @ [NL]
         \<and> fst (deleteTask (Some i) st) = ''No tasks to delete.'' @ [NL]"
    by (simp add: toggleTaskComplete_def deleteTask_def)
  from t d nf em show ?thesis by simp
qed

theorem absent_id_no_change_witness:
  "snd (toggleTaskComplete (Some 99)
       \<lparr>tasks = [\<lparr>id_task = 1, description = ''A'', completed = False\<rparr>,
                 \<lparr>id_task = 2, description = ''B'', completed = True\<rparr>],
        nextId = 3, TASKS_FILE = None\<rparr>)
     = \<lparr>tasks = [\<lparr>id_task = 1, description = ''A'', completed = False\<rparr>,
                 \<lparr>id_task = 2, description = ''B'', completed = True\<rparr>],
        nextId = 3, TASKS_FILE = None\<rparr>
   \<and> signals_NotFound 99 (fst (deleteTask (Some 99)
       \<lparr>tasks = [\<lparr>id_task = 1, description = ''A'', completed = False\<rparr>,
                 \<lparr>id_task = 2, description = ''B'', completed = True\<rparr>],
        nextId = 3, TASKS_FILE = None\<rparr>))
   \<and> fst (toggleTaskComplete (Some 99) (main_start None)) = ''No tasks to toggle.'' @ [NL]"
  using absent_id_no_change [of 99
       "\<lparr>tasks = [\<lparr>id_task = 1, description = ''A'', completed = False\<rparr>,
                 \<lparr>id_task = 2, description = ''B'', completed = True\<rparr>],
        nextId = 3, TASKS_FILE = None\<rparr>"]
    absent_id_no_change [of 99 "main_start None"]
  by (simp add: main_start_def)

text \<open>
  Claim C5. When the list holds a task with id \<open>i\<close>, \<open>toggleTaskComplete\<close> called with
  \<open>i\<close> negates the completed flag of the first such task and changes nothing else in
  the list; called a second time it gives back the list as it was, and \<open>nextId\<close> is
  unchanged.
\<close>

theorem toggle_twice:
  assumes "i \<in> id_task ` set (tasks st)"
  shows "\<exists>k. find_task i (tasks st) = Some k \<and> k < length (tasks st)
      \<and> id_task (tasks st ! k) = i
      \<and> tasks (snd (toggleTaskComplete (Some i) st))
          = (tasks st)[k := (tasks st ! k)\<lparr>completed := \<not> completed (tasks st ! k)\<rparr>]
      \<and> tasks (snd (toggleTaskComplete (Some i) (snd (toggleTaskComplete (Some i) st))))
          = tasks st
      \<and> nextId (snd (toggleTaskComplete (Some i) (snd (toggleTaskComplete (Some i) st))))
          = nextId st"
proof -
  from assms obtain k where k: "find_task i (tasks st) = Some k"
    using find_task_present by blast
  then have kl: "k < length (tasks st)" and kid: "id_task (tasks st ! k) = i"
    using find_task_Some [of i "tasks st" k] by simp_all
  define t' where "t' = (tasks st ! k)\<lparr>completed := \<not> completed (tasks st ! k)\<rparr>"
  define st1 where "st1 = snd (toggleTaskComplete (Some i) st)"
  from kl have ne: "tasks st \<noteq> []" by auto
  have ts1: "tasks st1 = (tasks st)[k := t']" and n1: "nextId st1 = nextId st"
    using k ne by (simp_all add: st1_def t'_def toggleTaskComplete_def saveTasksToFile_def Let_def)
  have "map id_task (tasks st1) = map id_task (tasks st)"
    unfolding ts1 by (rule map_update_same_field) (simp add: t'_def)
  then have k1: "find_task i (tasks st1) = Some k"
    using k find_task_same_ids [of "tasks st1" "tasks st" i] by simp
  have ne1: "tasks st1 \<noteq> []" using ne ts1 by simp
  have restored: "(tasks st1 ! k)\<lparr>completed := \<not> completed (tasks st1 ! k)\<rparr> = tasks st ! k"
    using kl by (simp add: ts1 t'_def)
  have ts2: "tasks (snd (toggleTaskComplete (Some i) st1)) = tasks st"
    using k1 ne1 restored
    by (simp add: toggleTaskComplete_def saveTasksToFile_def Let_def) (simp add: ts1)
  have n2: "nextId (snd (toggleTaskComplete (Some i) st1)) = nextId st"
    using k1 ne1 n1 by (simp add: toggleTaskComplete_def saveTasksToFile_def Let_def)
  from k kl kid ts1 ts2 n2 show ?thesis
    unfolding st1_def t'_def by blast
qed

theorem toggle_twice_witness:
  "tasks (snd (toggleTaskComplete (Some 2)
       \<lparr>tasks = [\<lparr>id_task = 1, description = ''A'', completed = False\<rparr>,
                 \<lparr>id_task = 2, description = ''B'', completed = True\<rparr>],
        nextId = 3, TASKS_FILE = None\<rparr>))
     = [\<lparr>id_task = 1, description = ''A'', completed = False\<rparr>,
        \<lparr>id_task = 2, description = ''B'', completed = False\<rparr>]
   \<and> tasks (snd (toggleTaskComplete (Some 2) (snd (toggleTaskComplete (Some 2)
       \<lparr>tasks = [\<lparr>id_task = 1, description = ''A'', completed = False\<rparr>,
                 \<lparr>id_task = 2, description = ''B'', completed = True\<rparr>],
        nextId = 3, TASKS_FILE = None\<rparr>))))
     = [\<lparr>id_task = 1, description = ''A'', completed = False\<rparr>,
        \<lparr>id_task = 2, description = ''B'', completed = True\<rparr>]"
  using toggle_twice [of 2
       "\<lparr>tasks = [\<lparr>id_task = 1, description = ''A'', completed = False\<rparr>,
                 \<lparr>id_task = 2, description = ''B'', completed = True\<rparr>],
        nextId = 3, TASKS_FILE = None\<rparr>"]
  by simp

text \<open>
  Claim C6. When the list holds a task with id \<open>i\<close>, \<open>editTask\<close> called with \<open>i\<close> and a
  new description replaces the description of the first such task: the list after the
  call is the list before it with that one field updated, so every id, every
  completed flag, every other record and the order are as before.
\<close>

theorem editTask_frame:
  assumes "i \<in> id_task ` set (tasks st)"
  shows "\<exists>k. find_task i (tasks st) = Some k \<and> k < length (tasks st)
      \<and> id_task (tasks st ! k) = i
      \<and> tasks (snd (editTask (Some i) d st))
          = (tasks st)[k := (tasks st ! k)\<lparr>description := d\<rparr>]
      \<and> map id_task (tasks (snd (editTask (Some i) d st))) = map id_task (tasks st)
      \<and> map completed (tasks (snd (editTask (Some i) d st))) = map completed (tasks st)
      \<and> nextId (snd (editTask (Some i) d st)) = nextId st"
proof -
  from assms obtain k where k: "find_task i (tasks st) = Some k"
    using find_task_present by blast
  then have kl: "k < length (tasks st)" and kid: "id_task (tasks st ! k) = i"
    using find_task_Some [of i "tasks st" k] by simp_all
  from kl have ne: "tasks st \<noteq> []" by auto
  have ts1: "tasks (snd (editTask (Some i) d st))
      = (tasks st)[k := (tasks st ! k)\<lparr>description := d\<rparr>]"
    and n1: "nextId (snd (editTask (Some i) d st)) = nextId st"
    using k ne by (simp_all add: editTask_def saveTasksToFile_def Let_def)
  have ids: "map id_task (tasks (snd (editTask (Some i) d st))) = map id_task (tasks st)"
    unfolding ts1 by (rule map_update_same_field) simp
  have cs: "map completed (tasks (snd (editTask (Some i) d st))) = map completed (tasks st)"
    unfolding ts1 by (rule map_update_same_field) simp
  from k kl kid ts1 ids cs n1 show ?thesis by blast
qed

theorem editTask_frame_witness:
  "tasks (snd (editTask (Some 1) ''new|text''
       \<lparr>tasks = [\<lparr>id_task = 1, description = ''A'', completed = False\<rparr>,
                 \<lparr>id_task = 2, description = ''B'', completed = True\<rparr>,
                 \<lparr>id_task = 1, description = ''C'', completed = True\<rparr>],
        nextId = 3, TASKS_FILE = None\<rparr>))
     = [\<lparr>id_task = 1, description = ''new|text'', completed = False\<rparr>,
        \<lparr>id_task = 2, description = ''B'', completed = True\<rparr>,
        \<lparr>id_task = 1, description = ''C'', completed = True\<rparr>]"
  using editTask_frame [of 1
       "\<lparr>tasks = [\<lparr>id_task = 1, description = ''A'', completed = False\<rparr>,
                 \<lparr>id_task = 2, description = ''B'', completed = True\<rparr>,
                 \<lparr>id_task = 1, description = ''C'', completed = True\<rparr>],
        nextId = 3, TASKS_FILE = None\<rparr>" "''new|text''"]
  by simp

section \<open>\<open>addTask\<close> and the ids it gives out\<close>

lemma int_succ_below: "n < INT_MAX \<Longrightarrow> int_succ n = n + 1"
  by (simp add: int_succ_def)

lemma int_succ_max: "int_succ INT_MAX = INT_MIN"
  by (simp add: int_succ_def)

lemma addTask_result:
  "tasks (snd (addTask d st))
     = tasks st @ [\<lparr>id_task = nextId st, description = d, completed = False\<rparr>]"
  "nextId (snd (addTask d st)) = int_succ (nextId st)"
  by (simp_all add: addTask_def Task_new_def saveTasksToFile_def)

lemma addTask_ids_Cons:
  "addTask_ids (d # ds) st =
     (nextId st # fst (addTask_ids ds (snd (addTask d st))),
      snd (addTask_ids ds (snd (addTask d st))))"
proof -
  have "id_task (last (tasks (snd (addTask d st)))) = nextId st"
    by (simp add: addTask_result(1))
  then show ?thesis by (simp add: case_prod_beta)
qed

lemma addTask_ids_bounds:
  "nextId st + int (length ds) \<le> INT_MAX + 1 \<Longrightarrow>
     length (fst (addTask_ids ds st)) = length ds
     \<and> sorted_wrt (<) (fst (addTask_ids ds st))
     \<and> (\<forall>x\<in>set (fst (addTask_ids ds st)). nextId st \<le> x)
     \<and> map id_task (tasks (snd (addTask_ids ds st)))
         = map id_task (tasks st) @ fst (addTask_ids ds st)"
proof (induction ds arbitrary: st)
  case Nil
  then show ?case by simp
next
  case (Cons d ds)
  let ?st1 = "snd (addTask d st)"
  let ?ids = "fst (addTask_ids ds ?st1)"
  have n1: "nextId ?st1 = int_succ (nextId st)" by (rule addTask_result)
  have room: "nextId ?st1 + int (length ds) \<le> INT_MAX + 1"
    using Cons.prems by (auto simp: n1 int_succ_def INT_MAX_def INT_MIN_def)
  from Cons.IH [OF room] have ih: "length ?ids = length ds" "sorted_wrt (<) ?ids"
    "\<forall>x\<in>set ?ids. nextId ?st1 \<le> x"
    "map id_task (tasks (snd (addTask_ids ds ?st1))) = map id_task (tasks ?st1) @ ?ids"
    by simp_all
  have above: "\<forall>x\<in>set ?ids. nextId st < x"
  proof (cases "ds = []")
    case True
    then show ?thesis by simp
  next
    case False
    then have "1 \<le> int (length ds)" by (cases ds) simp_all
    with Cons.prems have "nextId st < INT_MAX" by simp
    then have "nextId ?st1 = nextId st + 1" by (simp add: n1 int_succ_below)
    with ih(3) show ?thesis by auto
  qed
  from ih above show ?case
    by (simp add: addTask_ids_Cons addTask_result(1) less_imp_le del: addTask_ids.simps)
qed

text \<open>
  Claim C2, as the specification states it, fails when \<open>nextId\<close> has reached \<open>INT_MAX\<close>,
  the state after loading a file with the line \<open>2147483646|x|1\<close>: the next task gets
  the id 2147483647, \<open>nextId++\<close> overflows and wraps around, and the task after it
  gets the id -2147483648.
\<close>

theorem addTask_ids_overflow_counterexample:
  "loadTasksFromFile (main_start (Some (''2147483646|x|1'' @ [NL])))
     = Inr \<lparr>tasks = [\<lparr>id_task = 2147483646, description = ''x'', completed = True\<rparr>],
            nextId = 2147483647, TASKS_FILE = Some (''2147483646|x|1'' @ [NL])\<rparr>
   \<and> fst (addTask_ids [''a'', ''b'']
         \<lparr>tasks = [\<lparr>id_task = 2147483646, description = ''x'', completed = True\<rparr>],
          nextId = 2147483647, TASKS_FILE = Some (''2147483646|x|1'' @ [NL])\<rparr>)
       = [2147483647, - 2147483648]
   \<and> \<not> sorted_wrt (<) [2147483647, - 2147483648 :: int]"
proof -
  have i: "stoi ''2147483646'' = Inr 2147483646"
    by (simp add: stoi_def isspace_def isdigit_def digits_val_def digit_val_def
        INT_MAX_def INT_MIN_def Let_def)
  have "loadTasksFromFile (main_start (Some (''2147483646|x|1'' @ [NL])))
      = Inr \<lparr>tasks = [\<lparr>id_task = 2147483646, description = ''x'', completed = True\<rparr>],
             nextId = 2147483647, TASKS_FILE = Some (''2147483646|x|1'' @ [NL])\<rparr>"
    by (simp add: loadTasksFromFile_def main_start_def load_loop.simps getline_def load_line_def
        i NL_def Let_def Task_new_def int_succ_def INT_MAX_def)
  moreover have "fst (addTask_ids [''a'', ''b'']
         \<lparr>tasks = [\<lparr>id_task = 2147483646, description = ''x'', completed = True\<rparr>],
          nextId = 2147483647, TASKS_FILE = Some (''2147483646|x|1'' @ [NL])\<rparr>)
      = [2147483647, - 2147483648]"
    by (simp add: addTask_def Task_new_def saveTasksToFile_def int_succ_def
        INT_MAX_def INT_MIN_def)
  ultimately show ?thesis by simp
qed

text \<open>
  Claim C2, amended. From any state, as long as the ids given out stay within \<open>int\<close>,
  that is \<open>nextId\<close> plus the number of calls is at most \<open>INT_MAX + 1\<close>, the ids of the
  tasks created by successive calls of \<open>addTask\<close> are strictly increasing and pairwise
  distinct, and they are appended to the ids already in the list in that order.
\<close>

theorem addTask_ids_increasing:
  assumes "nextId st + int (length ds) \<le> INT_MAX + 1"
  shows "length (fst (addTask_ids ds st)) = length ds
     \<and> sorted_wrt (<) (fst (addTask_ids ds st))
     \<and> distinct (fst (addTask_ids ds st))
     \<and> map id_task (tasks (snd (addTask_ids ds st)))
         = map id_task (tasks st) @ fst (addTask_ids ds st)"
  using addTask_ids_bounds [OF assms] by (simp add: strict_sorted_iff)

theorem addTask_ids_increasing_witness:
  "fst (addTask_ids [''a'', ''b'', ''c''] \<lparr>tasks = [], nextId = 2147483645, TASKS_FILE = None\<rparr>)
     = [2147483645, 2147483646, 2147483647]
   \<and> sorted_wrt (<) [2147483645, 2147483646, 2147483647 :: int]
   \<and> distinct [2147483645, 2147483646, 2147483647 :: int]"
proof -
  let ?start = "\<lparr>tasks = [], nextId = 2147483645, TASKS_FILE = None\<rparr>"
  have run: "fst (addTask_ids [''a'', ''b'', ''c''] ?start)
      = [2147483645, 2147483646, 2147483647]"
    by (simp add: addTask_def Task_new_def saveTasksToFile_def int_succ_def
        INT_MAX_def INT_MIN_def)
  have room: "nextId ?start + int (length [''a'', ''b'', ''c'']) \<le> INT_MAX + 1"
    by (simp add: INT_MAX_def)
  from addTask_ids_increasing [OF room] run show ?thesis by simp
qed

section \<open>The invariants along the loop of \<open>main\<close>\<close>

lemma toggleTaskComplete_ids:
  "map id_task (tasks (snd (toggleTaskComplete c st))) = map id_task (tasks st)
   \<and> nextId (snd (toggleTaskComplete c st)) = nextId st"
proof (cases "tasks st = [] \<or> c = None")
  case True
  then show ?thesis by (auto simp: toggleTaskComplete_def Let_def)
next
  case False
  then obtain i where c: "c = Some i" and ne: "tasks st \<noteq> []" by auto
  show ?thesis
  proof (cases "find_task i (tasks st)")
    case None
    with c ne show ?thesis by (simp add: toggleTaskComplete_def Let_def)
  next
    case (Some k)
    have "map id_task ((tasks st)[k := (tasks st ! k)\<lparr>completed := \<not> completed (tasks st ! k)\<rparr>])
        = map id_task (tasks st)"
      by (rule map_update_same_field) simp
    with Some c ne show ?thesis
      by (simp add: toggleTaskComplete_def saveTasksToFile_def Let_def)
  qed
qed

lemma editTask_ids:
  "map id_task (tasks (snd (editTask c d st))) = map id_task (tasks st)
   \<and> nextId (snd (editTask c d st)) = nextId st"
proof (cases "tasks st = [] \<or> c = None")
  case True
  then show ?thesis by (auto simp: editTask_def Let_def)
next
  case False
  then obtain i where c: "c = Some i" and ne: "tasks st \<noteq> []" by auto
  show ?thesis
  proof (cases "find_task i (tasks st)")
    case None
    with c ne show ?thesis by (simp add: editTask_def Let_def)
  next
    case (Some k)
    have "map id_task ((tasks st)[k := (tasks st ! k)\<lparr>description := d\<rparr>])
        = map id_task (tasks st)"
      by (rule map_update_same_field) simp
    with Some c ne show ?thesis
      by (simp add: editTask_def saveTasksToFile_def Let_def)
  qed
qed

lemma deleteTask_tasks:
  "nextId (snd (deleteTask c st)) = nextId st
   \<and> (tasks (snd (deleteTask c st)) = tasks st
        \<or> (\<exists>k. tasks (snd (deleteTask c st)) = take k (tasks st) @ drop (Suc k) (tasks st)))"
proof (cases "tasks st = [] \<or> c = None")
  case True
  then show ?thesis by (auto simp: deleteTask_def Let_def)
next
  case False
  then obtain i where c: "c = Some i" and ne: "tasks st \<noteq> []" by auto
  show ?thesis
  proof (cases "find_task i (tasks st)")
    case None
    with c ne show ?thesis by (simp add: deleteTask_def Let_def)
  next
    case (Some k)
    with c ne have "tasks (snd (deleteTask c st)) = take k (tasks st) @ drop (Suc k) (tasks st)"
      and "nextId (snd (deleteTask c st)) = nextId st"
      by (simp_all add: deleteTask_def saveTasksToFile_def Let_def)
    then show ?thesis by blast
  qed
qed

lemma distinct_erase:
  assumes "distinct (map f xs)"
  shows "distinct (map f (take k xs @ drop (Suc k) xs))"
proof -
  have "set (take k (map f xs)) \<inter> set (drop (Suc k) (map f xs)) = {}"
    using assms by (intro set_take_disj_set_drop_if_distinct) simp_all
  moreover have "distinct (take k (map f xs))" "distinct (drop (Suc k) (map f xs))"
    using assms by simp_all
  ultimately show ?thesis by (simp add: take_map drop_map)
qed

lemma set_erase: "set (take k xs @ drop (Suc k) xs) \<subseteq> set xs"
  using set_take_subset [of k xs] set_drop_subset [of "Suc k" xs] by auto

lemma store_inv_alt:
  "store_inv st \<longleftrightarrow>
     distinct (map id_task (tasks st)) \<and> (\<forall>x\<in>set (map id_task (tasks st)). x < nextId st)"
  by (simp add: store_inv_def)

lemma store_inv_same_ids:
  assumes "store_inv st" and "map id_task (tasks st') = map id_task (tasks st)"
    and "nextId st' = nextId st"
  shows "store_inv st'"
  using assms unfolding store_inv_alt by simp

lemma store_inv_add_distinct:
  assumes "store_inv st" and "nextId st \<le> INT_MAX"
  shows "distinct (map id_task (tasks (snd (addTask d st))))"
  using assms by (auto simp: store_inv_def addTask_result(1))

lemma store_inv_add:
  assumes "store_inv st" and "nextId st < INT_MAX"
  shows "store_inv (snd (addTask d st))"
  using assms by (auto simp: store_inv_def addTask_result int_succ_below)

text \<open>
  What the loop keeps while \<open>r\<close> calls of \<open>addTask\<close> are still to come: the ids are
  distinct, and unless \<open>r\<close> is 0 they are below \<open>nextId\<close>, which has room for \<open>r\<close> more.
\<close>

lemma main_loop_distinct:
  assumes "distinct (map id_task (tasks st))"
    and "count_addTask reqs = 0
         \<or> (store_inv st \<and> nextId st + int (count_addTask reqs) \<le> INT_MAX + 1)"
  shows "distinct (map id_task (tasks (main_loop reqs st)))"
  using assms
proof (induction reqs arbitrary: st)
  case Nil
  then show ?case by simp
next
  case (Cons req rest)
  obtain menuInput cin_id cin_line where req: "req = (menuInput, cin_id, cin_line)"
    by (cases req) auto
  have same: "distinct (map id_task (tasks (main_loop rest st')))"
    if ids: "map id_task (tasks st') = map id_task (tasks st)" and n: "nextId st' = nextId st"
      and c: "count_addTask (req # rest) = count_addTask rest" for st'
  proof (rule Cons.IH)
    show "distinct (map id_task (tasks st'))" using Cons.prems(1) ids by simp
    show "count_addTask rest = 0
         \<or> (store_inv st' \<and> nextId st' + int (count_addTask rest) \<le> INT_MAX + 1)"
      using Cons.prems(2) c n store_inv_same_ids [OF _ ids n] by auto
  qed
  consider "menuInput = 1" | "menuInput = 2" | "menuInput = 3" | "menuInput = 4"
    | "menuInput = 5" | "menuInput = 6" | "menuInput \<notin> {1, 2, 3, 4, 5, 6}"
    by auto
  then show ?case
  proof cases
    case 1
    then have c: "count_addTask (req # rest) = Suc (count_addTask rest)"
      by (simp add: count_addTask_def req)
    with Cons.prems(2) have inv: "store_inv st"
      and room: "nextId st + int (count_addTask rest) \<le> INT_MAX" by simp_all
    let ?st1 = "snd (addTask cin_line st)"
    have "distinct (map id_task (tasks (main_loop rest ?st1)))"
    proof (rule Cons.IH)
      from room show "distinct (map id_task (tasks ?st1))"
        by (intro store_inv_add_distinct [OF inv]) simp
      show "count_addTask rest = 0
         \<or> (store_inv ?st1 \<and> nextId ?st1 + int (count_addTask rest) \<le> INT_MAX + 1)"
      proof (cases "count_addTask rest = 0")
        case True
        then show ?thesis by simp
      next
        case False
        with room have below: "nextId st < INT_MAX" by simp
        from store_inv_add [OF inv below] room below show ?thesis
          by (simp add: addTask_result(2) int_succ_below)
      qed
    qed
    with 1 show ?thesis by (simp add: req)
  next
    case 2
    then have "count_addTask (req # rest) = count_addTask rest"
      by (simp add: count_addTask_def req)
    from same [OF refl refl this] 2 show ?thesis by (simp add: req)
  next
    case 3
    then have "count_addTask (req # rest) = count_addTask rest"
      by (simp add: count_addTask_def req)
    from same [OF _ _ this, of "snd (toggleTaskComplete cin_id st)"]
      toggleTaskComplete_ids [of cin_id st] 3
    show ?thesis by (simp add: req)
  next
    case 4
    then have c: "count_addTask (req # rest) = count_addTask rest"
      by (simp add: count_addTask_def req)
    let ?st1 = "snd (deleteTask cin_id st)"
    from deleteTask_tasks [of cin_id st] have n: "nextId ?st1 = nextId st"
      and ts: "tasks ?st1 = tasks st
         \<or> (\<exists>k. tasks ?st1 = take k (tasks st) @ drop (Suc k) (tasks st))"
      by simp_all
    from ts have d: "distinct (map id_task (tasks ?st1))"
      and sub: "set (tasks ?st1) \<subseteq> set (tasks st)"
    proof -
      from ts show "distinct (map id_task (tasks ?st1))"
      proof
        assume "tasks ?st1 = tasks st"
        with Cons.prems(1) show ?thesis by simp
      next
        assume "\<exists>k. tasks ?st1 = take k (tasks st) @ drop (Suc k) (tasks st)"
        then obtain k where "tasks ?st1 = take k (tasks st) @ drop (Suc k) (tasks st)" ..
        with distinct_erase [OF Cons.prems(1), of k] show ?thesis by simp
      qed
      from ts show "set (tasks ?st1) \<subseteq> set (tasks st)"
      proof
        assume "tasks ?st1 = tasks st"
        then show ?thesis by simp
      next
        assume "\<exists>k. tasks ?st1 = take k (tasks st) @ drop (Suc k) (tasks st)"
        then obtain k where "tasks ?st1 = take k (tasks st) @ drop (Suc k) (tasks st)" ..
        with set_erase [of k "tasks st"] show ?thesis by simp
      qed
    qed
    have "distinct (map id_task (tasks (main_loop rest ?st1)))"
    proof (rule Cons.IH [OF d])
      show "count_addTask rest = 0
         \<or> (store_inv ?st1 \<and> nextId ?st1 + int (count_addTask rest) \<le> INT_MAX + 1)"
        using Cons.prems(2) c n d sub by (auto simp: store_inv_def)
    qed
    with 4 show ?thesis by (simp add: req)
  next
    case 5
    then have "count_addTask (req # rest) = count_addTask rest"
      by (simp add: count_addTask_def req)
    from same [OF _ _ this, of "snd (editTask cin_id cin_line st)"]
      editTask_ids [of cin_id cin_line st] 5
    show ?thesis by (simp add: req)
  next
    case 6
    with Cons.prems(1) show ?thesis by (simp add: req)
  next
    case 7
    then have "count_addTask (req # rest) = count_addTask rest"
      by (auto simp: count_addTask_def req)
    from same [OF refl refl this] 7 show ?thesis by (simp add: req)
  qed
qed

section \<open>Reading the file\<close>

lemma getline_delim:
  assumes "d \<notin> set a"
  shows "getline (Some (a @ d # rest)) d = Some (a, Some rest)"
proof -
  from assms have tw: "takeWhile (\<lambda>c. c \<noteq> d) (a @ d # rest) = a"
    by (induction a) auto
  from assms have dw: "dropWhile (\<lambda>c. c \<noteq> d) (a @ d # rest) = d # rest"
    by (induction a) auto
  show ?thesis by (simp add: getline_def Let_def tw dw)
qed

lemma getline_eof:
  assumes "d \<notin> set a"
  shows "getline (Some a) d = (if a = [] then None else Some (a, None))"
proof -
  from assms have tw: "takeWhile (\<lambda>c. c \<noteq> d) a = a" by (induction a) auto
  from assms have dw: "dropWhile (\<lambda>c. c \<noteq> d) a = []" by (induction a) auto
  show ?thesis by (simp add: getline_def Let_def tw dw)
qed

lemma getline_None [simp]: "getline None d = None"
  by (simp add: getline_def)

lemma load_loop_end: "load_loop (Some []) st = Inr st" "load_loop None st = Inr st"
  by (simp_all add: load_loop.simps getline_def)

lemma load_loop_line:
  assumes "NL \<notin> set line"
  shows "load_loop (Some (line @ NL # rest)) st =
     (case load_line line st of Inl e \<Rightarrow> Inl e | Inr st' \<Rightarrow> load_loop (Some rest) st')"
  by (subst load_loop.simps) (simp add: getline_delim [OF assms])

lemma load_loop_last_line:
  assumes "NL \<notin> set line" and "line \<noteq> []"
  shows "load_loop (Some line) st = load_line line st"
  using assms(2)
  by (subst load_loop.simps) (simp add: getline_eof [OF assms(1)] load_loop_end split: sum.splits)

lemma load_line_three:
  assumes "CHR ''|'' \<notin> set idStr" and "CHR ''|'' \<notin> set desc"
    and "NL \<notin> set rest" and "rest \<noteq> []"
  shows "load_line (idStr @ CHR ''|'' # desc @ CHR ''|'' # rest) st =
     (case stoi idStr of
        Inl e \<Rightarrow> Inl e
      | Inr i \<Rightarrow>
          Inr (st\<lparr>tasks := tasks st @ [\<lparr>id_task = i, description = desc,
                                           completed = (rest = ''1'')\<rparr>],
                   nextId := (if int_succ (nextId st) \<le> i then int_succ i
                              else int_succ (nextId st))\<rparr>))"
proof -
  have g1: "getline (Some (idStr @ CHR ''|'' # desc @ CHR ''|'' # rest)) CHR ''|''
      = Some (idStr, Some (desc @ CHR ''|'' # rest))"
    using assms(1) by (rule getline_delim)
  have g2: "getline (Some (desc @ CHR ''|'' # rest)) CHR ''|'' = Some (desc, Some rest)"
    using assms(2) by (rule getline_delim)
  have g3: "getline (Some rest) NL = Some (rest, None)"
    using assms(3,4) by (simp add: getline_eof)
  show ?thesis
    by (simp add: load_line_def g1 g2 g3 Task_new_def Let_def split: sum.splits)
qed

text \<open>A line is skipped, or it appends one task and moves \<open>nextId\<close>.\<close>

lemma load_line_cases:
  assumes "load_line line st = Inr st'"
  shows "st' = st
     \<or> (\<exists>t. st' = st\<lparr>tasks := tasks st @ [t],
                      nextId := (if int_succ (nextId st) \<le> id_task t then int_succ (id_task t)
                                 else int_succ (nextId st))\<rparr>)"
proof -
  from assms consider "st' = st"
    | i desc c where "st' = st\<lparr>tasks := tasks st @ [\<lparr>id_task = i, description = desc,
                                                   completed = c\<rparr>],
          nextId := int_succ i\<rparr>" "int_succ (nextId st) \<le> i"
    | i desc c where "st' = st\<lparr>tasks := tasks st @ [\<lparr>id_task = i, description = desc,
                                                   completed = c\<rparr>],
          nextId := int_succ (nextId st)\<rparr>" "\<not> int_succ (nextId st) \<le> i"
    by (auto simp: load_line_def Task_new_def Let_def
        split: option.splits sum.splits if_splits prod.splits)
  then show ?thesis
  proof cases
    case 1
    then show ?thesis by simp
  next
    case 2
    then have "st' = st\<lparr>tasks := tasks st @ [\<lparr>id_task = i, description = desc, completed = c\<rparr>],
          nextId := (if int_succ (nextId st)
                        \<le> id_task \<lparr>id_task = i, description = desc, completed = c\<rparr>
                     then int_succ (id_task \<lparr>id_task = i, description = desc, completed = c\<rparr>)
                     else int_succ (nextId st))\<rparr>"
      by simp
    then show ?thesis by blast
  next
    case 3
    then have "st' = st\<lparr>tasks := tasks st @ [\<lparr>id_task = i, description = desc, completed = c\<rparr>],
          nextId := (if int_succ (nextId st)
                        \<le> id_task \<lparr>id_task = i, description = desc, completed = c\<rparr>
                     then int_succ (id_task \<lparr>id_task = i, description = desc, completed = c\<rparr>)
                     else int_succ (nextId st))\<rparr>"
      by simp
    then show ?thesis by blast
  qed
qed

text \<open>
  The tasks that the loop appends, and \<open>nextId\<close> after it when neither increment
  overflows: it has not gone down and is above every id that was loaded.
\<close>

lemma load_loop_appends:
  "load_loop strm st = Inr st' \<Longrightarrow>
     \<exists>new. tasks st' = tasks st @ new
       \<and> (nextId st + int (length new) \<le> INT_MAX
            \<and> (\<forall>p<length new. id_task (new ! p) + int (length new - p) \<le> INT_MAX)
           \<longrightarrow> nextId st \<le> nextId st' \<and> (\<forall>t\<in>set new. id_task t < nextId st'))"
proof (induction strm st rule: load_loop.induct)
  case (1 strm st)
  show ?case
  proof (cases "getline strm NL")
    case None
    with "1.prems" have "st' = st" by (subst (asm) load_loop.simps) simp
    then have "tasks st' = tasks st @ []" by simp
    moreover have "nextId st \<le> nextId st'" using \<open>st' = st\<close> by simp
    ultimately show ?thesis by (intro exI [of _ "[]"]) simp
  next
    case (Some p)
    obtain line strm' where p: "p = (line, strm')" by (cases p)
    from "1.prems" Some p obtain st1 where l: "load_line line st = Inr st1"
      and r: "load_loop strm' st1 = Inr st'"
      by (subst (asm) load_loop.simps) (auto split: sum.splits)
    from "1.IH" [OF Some [unfolded p] refl l r] obtain new'
      where app: "tasks st' = tasks st1 @ new'"
        and ih: "nextId st1 + int (length new') \<le> INT_MAX
            \<and> (\<forall>q<length new'. id_task (new' ! q) + int (length new' - q) \<le> INT_MAX)
           \<longrightarrow> nextId st1 \<le> nextId st' \<and> (\<forall>t\<in>set new'. id_task t < nextId st')"
      by blast
    from load_line_cases [OF l] show ?thesis
    proof
      assume "st1 = st"
      with app ih show ?thesis by (intro exI [of _ new']) simp
    next
      assume "\<exists>t. st1 = st\<lparr>tasks := tasks st @ [t],
                      nextId := (if int_succ (nextId st) \<le> id_task t then int_succ (id_task t)
                                 else int_succ (nextId st))\<rparr>"
      then obtain t where st1: "st1 = st\<lparr>tasks := tasks st @ [t],
                      nextId := (if int_succ (nextId st) \<le> id_task t then int_succ (id_task t)
                                 else int_succ (nextId st))\<rparr>" ..
      have "nextId st \<le> nextId st' \<and> (\<forall>u\<in>set (t # new'). id_task u < nextId st')"
        if room: "nextId st + int (length (t # new')) \<le> INT_MAX"
          and ids: "\<forall>q<length (t # new').
              id_task ((t # new') ! q) + int (length (t # new') - q) \<le> INT_MAX"
      proof -
        from room have n: "int_succ (nextId st) = nextId st + 1"
          by (intro int_succ_below) simp
        from ids have first: "id_task t + int (length (t # new')) \<le> INT_MAX"
          by (auto dest: spec [of _ 0])
        then have i: "int_succ (id_task t) = id_task t + 1"
          by (intro int_succ_below) simp
        have n1: "nextId st1 = max (nextId st + 1) (id_task t + 1)"
          by (simp add: st1 n i max_def)
        have "nextId st1 + int (length new') \<le> INT_MAX"
          using room first by (simp add: n1 max_def)
        moreover have "\<forall>q<length new'. id_task (new' ! q) + int (length new' - q) \<le> INT_MAX"
        proof (intro allI impI)
          fix q assume "q < length new'"
          with ids have "id_task ((t # new') ! Suc q) + int (length (t # new') - Suc q) \<le> INT_MAX"
            by (auto dest: spec [of _ "Suc q"])
          then show "id_task (new' ! q) + int (length new' - q) \<le> INT_MAX" by simp
        qed
        ultimately have "nextId st1 \<le> nextId st'" "\<forall>u\<in>set new'. id_task u < nextId st'"
          using ih by simp_all
        then show ?thesis by (auto simp: n1)
      qed
      moreover have "tasks st' = tasks st @ (t # new')" by (simp add: app st1)
      ultimately show ?thesis by (intro exI [of _ "t # new'"]) blast
    qed
  qed
qed

lemma stoi_show_int_cases:
  "stoi (show_int i) = (if i < INT_MIN \<or> INT_MAX < i then Inl out_of_range else Inr i)"
proof (cases "i < INT_MIN \<or> INT_MAX < i")
  case False
  then show ?thesis using stoi_show_int [of i] by simp
next
  case True
  then show ?thesis
  proof
    assume lo: "i < INT_MIN"
    then have neg: "i < 0" by (simp add: INT_MIN_def)
    have tw: "takeWhile isdigit (digits (nat (- i))) = digits (nat (- i))"
      using digits_isdigit [of "nat (- i)"] by (simp only: takeWhile_eq_all_conv list_all_iff)
    have sp: "\<not> isspace CHR ''-''" by (simp add: isspace_def)
    from lo neg sp digits_nonempty [of "nat (- i)"] show ?thesis
      by (simp add: show_int_def stoi_def Let_def tw digits_val_digits)
  next
    assume hi: "INT_MAX < i"
    then have pos: "\<not> i < 0" by (simp add: INT_MAX_def)
    obtain c r where cr: "digits (nat i) = c # r"
      using digits_nonempty [of "nat i"] by (cases "digits (nat i)") auto
    have all: "list_all isdigit (c # r)" using digits_isdigit [of "nat i"] cr by simp
    then have c: "isdigit c" by simp
    have tw: "takeWhile isdigit (c # r) = c # r"
      using all by (simp only: takeWhile_eq_all_conv list_all_iff)
    have v: "digits_val (c # r) = nat i" using digits_val_digits [of "nat i"] cr by simp
    have lo: "\<not> i < INT_MIN" using pos by (simp add: INT_MIN_def)
    from hi pos lo isdigit_not_special [OF c] v show ?thesis
      by (simp add: show_int_def stoi_def cr Let_def tw del: takeWhile.simps)
  qed
qed

text \<open>The line that \<open>saveTasksToFile\<close> writes for a task, read back by the loop body.\<close>

lemma load_line_spec_line:
  assumes "CHR ''|'' \<notin> set (description task)"
  shows "load_line (spec_line task) st =
     (if id_task task < INT_MIN \<or> INT_MAX < id_task task then Inl out_of_range
      else Inr (st\<lparr>tasks := tasks st @ [task],
                   nextId := (if int_succ (nextId st) \<le> id_task task
                              then int_succ (id_task task) else int_succ (nextId st))\<rparr>))"
proof -
  let ?flag = "if completed task then ''1'' else ''0''"
  have line: "spec_line task =
      show_int (id_task task) @ CHR ''|'' # description task @ CHR ''|'' # ?flag"
    by (simp add: spec_line_def)
  have flag: "NL \<notin> set ?flag" "?flag \<noteq> []" by (simp_all add: NL_def)
  have same: "\<lparr>id_task = id_task task, description = description task,
      completed = (?flag = ''1'')\<rparr> = task"
    by simp
  show ?thesis
    unfolding line
    by (subst load_line_three [OF show_int_no_special(1) assms flag])
      (simp add: stoi_show_int_cases same del: Task.simps)
qed

lemma file_text_Cons: "file_text (task # ts) = spec_line task @ NL # file_text ts"
  by (simp add: file_text_concat)

lemma spec_line_no_newline:
  assumes "NL \<notin> set (description task)"
  shows "NL \<notin> set (spec_line task)"
  using assms show_int_no_special(2) [of "id_task task"]
  by (auto simp: spec_line_def NL_def)


lemma load_loop_file_text_succeeds:
  assumes "\<forall>task\<in>set ts. CHR ''|'' \<notin> set (description task) \<and> NL \<notin> set (description task)
       \<and> INT_MIN \<le> id_task task \<and> id_task task \<le> INT_MAX"
  shows "\<exists>st'. load_loop (Some (file_text ts)) st = Inr st'"
  using assms
proof (induction ts arbitrary: st)
  case Nil
  then show ?case by (simp add: file_text_def load_loop_end)
next
  case (Cons t ts)
  then have bar: "CHR ''|'' \<notin> set (description t)" and nl: "NL \<notin> set (description t)"
    and lo: "INT_MIN \<le> id_task t" and hi: "id_task t \<le> INT_MAX"
    by simp_all
  define st1 where "st1 = st\<lparr>tasks := tasks st @ [t],
      nextId := (if int_succ (nextId st) \<le> id_task t
                 then int_succ (id_task t) else int_succ (nextId st))\<rparr>"
  from lo hi have l: "load_line (spec_line t) st = Inr st1"
    by (simp add: load_line_spec_line [OF bar] st1_def)
  have rest: "\<forall>task\<in>set ts. CHR ''|'' \<notin> set (description task) \<and> NL \<notin> set (description task)
       \<and> INT_MIN \<le> id_task task \<and> id_task task \<le> INT_MAX"
    using Cons.prems by auto
  from Cons.IH [OF rest] obtain st' where "load_loop (Some (file_text ts)) st1 = Inr st'" ..
  with l show ?case
    by (simp add: file_text_Cons load_loop_line [OF spec_line_no_newline [OF nl]])
qed




lemma stoi_beyond_int: "stoi ''2147483648'' = Inl out_of_range"
  by (simp add: stoi_def isspace_def isdigit_def digits_val_def digit_val_def
      INT_MAX_def INT_MIN_def Let_def)

text \<open>
  Claim C4 does not hold of the code. \<open>loadTasksFromFile\<close> passes the first field of
  every line with three fields to \<open>std::stoi\<close> and catches nothing: a first field
  that is no number throws \<open>std::invalid_argument\<close>, one beyond \<open>int\<close> throws
  \<open>std::out_of_range\<close>, and \<open>main\<close> ends there, before the menu is shown.
\<close>

theorem loadTasksFromFile_throws:
  "loadTasksFromFile (main_start (Some (''abc|x|1'' @ [NL]))) = Inl invalid_argument
   \<and> loadTasksFromFile (main_start (Some (''|x|1'' @ [NL]))) = Inl invalid_argument
   \<and> loadTasksFromFile (main_start (Some (''2147483648|x|1'' @ [NL]))) = Inl out_of_range
   \<and> main (Some (''abc|x|1'' @ [NL])) reqs = Inl invalid_argument"
proof -
  have a: "loadTasksFromFile (main_start (Some (''abc|x|1'' @ [NL]))) = Inl invalid_argument"
    by code_simp
  have b: "loadTasksFromFile (main_start (Some (''|x|1'' @ [NL]))) = Inl invalid_argument"
    by code_simp
  have c: "loadTasksFromFile (main_start (Some (''2147483648|x|1'' @ [NL]))) = Inl out_of_range"
    by (simp add: loadTasksFromFile_def main_start_def load_loop.simps getline_def load_line_def
        stoi_beyond_int NL_def Let_def)
  from a b c show ?thesis by (simp add: main_def)
qed

text \<open>
  Claim C8, as the specification states it, fails for a file that holds the id
  \<open>INT_MAX\<close>: \<open>id + 1\<close> overflows and wraps around, and \<open>loadTasksFromFile\<close> returns with
  \<open>nextId = INT_MIN\<close>, below the id it has loaded.
\<close>

theorem loadTasksFromFile_nextId_counterexample:
  "loadTasksFromFile (main_start (Some (''2147483647|x|1'' @ [NL])))
     = Inr \<lparr>tasks = [\<lparr>id_task = 2147483647, description = ''x'', completed = True\<rparr>],
            nextId = - 2147483648, TASKS_FILE = Some (''2147483647|x|1'' @ [NL])\<rparr>
   \<and> \<not> (2147483647 :: int) < - 2147483648"
proof -
  have i: "stoi ''2147483647'' = Inr 2147483647"
    by (simp add: stoi_def isspace_def isdigit_def digits_val_def digit_val_def
        INT_MAX_def INT_MIN_def Let_def)
  have "loadTasksFromFile (main_start (Some (''2147483647|x|1'' @ [NL])))
      = Inr \<lparr>tasks = [\<lparr>id_task = 2147483647, description = ''x'', completed = True\<rparr>],
             nextId = - 2147483648, TASKS_FILE = Some (''2147483647|x|1'' @ [NL])\<rparr>"
    by (simp add: loadTasksFromFile_def main_start_def load_loop.simps getline_def load_line_def
        i NL_def Let_def Task_new_def int_succ_def INT_MAX_def INT_MIN_def)
  then show ?thesis by simp
qed

text \<open>
  Claim C8, amended. Without a file \<open>loadTasksFromFile\<close> returns with the empty list and
  \<open>nextId = 1\<close>. With a file, whenever it returns and \<open>nextId\<close> has not overflowed while
  loading (the loaded records are fewer than \<open>INT_MAX\<close>, and the id of each plus the
  number of records loaded from it on, itself included, is at most \<open>INT_MAX\<close>),
  \<open>nextId\<close> is above the id of every task it has loaded (and at least 1). It does
  return on every file that \<open>saveTasksToFile\<close> wrote for tasks as in claim C1.
\<close>

theorem loadTasksFromFile_nextId:
  "loadTasksFromFile (main_start None) = Inr \<lparr>tasks = [], nextId = 1, TASKS_FILE = None\<rparr>
   \<and> (loadTasksFromFile (main_start (Some content)) = Inr st
        \<and> 1 + int (length (tasks st)) \<le> INT_MAX
        \<and> (\<forall>p<length (tasks st).
               id_task (tasks st ! p) + int (length (tasks st) - p) \<le> INT_MAX)
       \<longrightarrow> (\<forall>task\<in>set (tasks st). id_task task < nextId st) \<and> 1 \<le> nextId st)
   \<and> (1 + int (length ts) \<le> INT_MAX
        \<and> (\<forall>task\<in>set ts. CHR ''|'' \<notin> set (description task) \<and> NL \<notin> set (description task)
              \<and> INT_MIN \<le> id_task task \<and> id_task task + int (length ts) \<le> INT_MAX)
       \<longrightarrow> (\<exists>st. loadTasksFromFile (main_start (Some (file_text ts))) = Inr st))"
proof -
  have absent: "loadTasksFromFile (main_start None) = Inr \<lparr>tasks = [], nextId = 1, TASKS_FILE = None\<rparr>"
    by (simp add: loadTasksFromFile_def main_start_def)
  have below: "(\<forall>task\<in>set (tasks st). id_task task < nextId st) \<and> 1 \<le> nextId st"
    if l: "loadTasksFromFile (main_start (Some content)) = Inr st"
      and len: "1 + int (length (tasks st)) \<le> INT_MAX"
      and ids: "\<forall>p<length (tasks st).
               id_task (tasks st ! p) + int (length (tasks st) - p) \<le> INT_MAX"
  proof -
    from l have "load_loop (Some content) (main_start (Some content)) = Inr st"
      by (simp add: loadTasksFromFile_def main_start_def)
    from load_loop_appends [OF this] obtain new
      where app: "tasks st = tasks (main_start (Some content)) @ new"
        and imp: "nextId (main_start (Some content)) + int (length new) \<le> INT_MAX
            \<and> (\<forall>p<length new. id_task (new ! p) + int (length new - p) \<le> INT_MAX)
           \<longrightarrow> nextId (main_start (Some content)) \<le> nextId st
               \<and> (\<forall>t\<in>set new. id_task t < nextId st)"
      by blast
    from app have new: "new = tasks st" by (simp add: main_start_def)
    from imp len ids show ?thesis by (simp add: new main_start_def)
  qed
  have returns: "\<exists>st. loadTasksFromFile (main_start (Some (file_text ts))) = Inr st"
    if "1 + int (length ts) \<le> INT_MAX"
      and all: "\<forall>task\<in>set ts. CHR ''|'' \<notin> set (description task) \<and> NL \<notin> set (description task)
              \<and> INT_MIN \<le> id_task task \<and> id_task task + int (length ts) \<le> INT_MAX"
  proof -
    from all have "\<forall>task\<in>set ts. CHR ''|'' \<notin> set (description task)
        \<and> NL \<notin> set (description task) \<and> INT_MIN \<le> id_task task \<and> id_task task \<le> INT_MAX"
      by fastforce
    from load_loop_file_text_succeeds [OF this, of "main_start (Some (file_text ts))"]
    show ?thesis by (simp add: loadTasksFromFile_def main_start_def)
  qed
  from absent below returns show ?thesis by blast
qed

theorem loadTasksFromFile_nextId_witness:
  "loadTasksFromFile (main_start (Some (''3|c|1'' @ [NL] @ ''-4|z|0'' @ [NL] @ ''junk'' @ [NL] @ ''9|last|1'')))
     = Inr \<lparr>tasks = [\<lparr>id_task = 3, description = ''c'', completed = True\<rparr>,
                     \<lparr>id_task = - 4, description = ''z'', completed = False\<rparr>,
                     \<lparr>id_task = 9, description = ''last'', completed = True\<rparr>],
            nextId = 10,
            TASKS_FILE = Some (''3|c|1'' @ [NL] @ ''-4|z|0'' @ [NL] @ ''junk'' @ [NL] @ ''9|last|1'')\<rparr>
   \<and> (3::int) < 10 \<and> (- 4::int) < 10 \<and> (9::int) < 10
   \<and> (\<exists>st. loadTasksFromFile (main_start (Some (file_text
          [\<lparr>id_task = 3, description = ''c'', completed = True\<rparr>,
           \<lparr>id_task = - 4, description = ''z'', completed = False\<rparr>]))) = Inr st)"
proof -
  let ?content = "''3|c|1'' @ [NL] @ ''-4|z|0'' @ [NL] @ ''junk'' @ [NL] @ ''9|last|1''"
  let ?loaded = "\<lparr>tasks = [\<lparr>id_task = 3, description = ''c'', completed = True\<rparr>,
                     \<lparr>id_task = - 4, description = ''z'', completed = False\<rparr>,
                     \<lparr>id_task = 9, description = ''last'', completed = True\<rparr>],
            nextId = 10, TASKS_FILE = Some ?content\<rparr>"
  let ?ts = "[\<lparr>id_task = 3, description = ''c'', completed = True\<rparr>,
           \<lparr>id_task = - 4, description = ''z'', completed = False\<rparr>]"
  have run: "loadTasksFromFile (main_start (Some ?content)) = Inr ?loaded"
    by code_simp
  have fits: "1 + int (length (tasks ?loaded)) \<le> INT_MAX
        \<and> (\<forall>p<length (tasks ?loaded).
               id_task (tasks ?loaded ! p) + int (length (tasks ?loaded) - p) \<le> INT_MAX)"
    by (simp add: INT_MAX_def less_Suc_eq numeral_3_eq_3)
  have room: "1 + int (length ?ts) \<le> INT_MAX
        \<and> (\<forall>task\<in>set ?ts. CHR ''|'' \<notin> set (description task) \<and> NL \<notin> set (description task)
              \<and> INT_MIN \<le> id_task task \<and> id_task task + int (length ?ts) \<le> INT_MAX)"
    by (simp add: INT_MAX_def INT_MIN_def NL_def)
  from loadTasksFromFile_nextId [of ?content ?loaded ?ts] run fits room show ?thesis by simp
qed

text \<open>
  Claim C9, as the specification states it, fails after \<open>loadTasksFromFile\<close>: the id
  of a line is taken as it is, so a file with two lines of id 1 gives a list with two
  tasks of id 1.
\<close>

theorem duplicate_ids_counterexample:
  "loadTasksFromFile (main_start (Some (''1|a|0'' @ [NL] @ ''1|b|0'' @ [NL])))
     = Inr \<lparr>tasks = [\<lparr>id_task = 1, description = ''a'', completed = False\<rparr>,
                     \<lparr>id_task = 1, description = ''b'', completed = False\<rparr>],
            nextId = 3, TASKS_FILE = Some (''1|a|0'' @ [NL] @ ''1|b|0'' @ [NL])\<rparr>
   \<and> \<not> distinct (map id_task [\<lparr>id_task = 1, description = ''a'', completed = False\<rparr>,
                                \<lparr>id_task = 1, description = ''b'', completed = False\<rparr>])"
  by code_simp

text \<open>
  Claim C9, amended. When the ids that \<open>loadTasksFromFile\<close> has loaded are pairwise
  distinct and below \<open>nextId\<close> (as they are without a file), they stay pairwise
  distinct after every sequence of \<open>addTask\<close>, \<open>viewTasks\<close>, \<open>toggleTaskComplete\<close>,
  \<open>deleteTask\<close> and \<open>editTask\<close> that the loop of \<open>main\<close> runs, as long as the ids given
  out stay within \<open>int\<close>: \<open>nextId\<close> after loading plus the number of calls of
  \<open>addTask\<close> that the loop makes is at most \<open>INT_MAX + 1\<close>.
\<close>

theorem distinct_ids_preserved:
  assumes "loadTasksFromFile (main_start f) = Inr st0"
    and "distinct (map id_task (tasks st0))"
    and "\<forall>task\<in>set (tasks st0). id_task task < nextId st0"
    and "nextId st0 + int (count_addTask reqs) \<le> INT_MAX + 1"
  shows "distinct (map id_task (tasks (main_loop reqs st0)))"
proof -
  from assms(2,3) have "store_inv st0" by (simp add: store_inv_def)
  with assms(4) show ?thesis by (intro main_loop_distinct [OF assms(2)]) simp
qed

theorem distinct_ids_preserved_witness:
  "main_loop [(1, None, ''c''), (3, Some 2, []), (4, Some 1, []), (5, Some 3, ''d'')]
      \<lparr>tasks = [\<lparr>id_task = 1, description = ''a'', completed = False\<rparr>,
                \<lparr>id_task = 2, description = ''b'', completed = False\<rparr>],
       nextId = 3, TASKS_FILE = Some (''1|a|0'' @ [NL] @ ''2|b|0'' @ [NL])\<rparr>
     = \<lparr>tasks = [\<lparr>id_task = 2, description = ''b'', completed = True\<rparr>,
                 \<lparr>id_task = 3, description = ''d'', completed = False\<rparr>],
        nextId = 4, TASKS_FILE = Some (''2|b|1'' @ [NL] @ ''3|d|0'' @ [NL])\<rparr>
   \<and> distinct [2, 3 :: int]"
proof -
  let ?f = "Some (''1|a|0'' @ [NL] @ ''2|b|0'' @ [NL])"
  let ?loaded = "\<lparr>tasks = [\<lparr>id_task = 1, description = ''a'', completed = False\<rparr>,
                \<lparr>id_task = 2, description = ''b'', completed = False\<rparr>],
       nextId = 3, TASKS_FILE = ?f\<rparr>"
  let ?reqs = "[(1, None, ''c''), (3, Some 2, []), (4, Some 1, []), (5, Some 3, ''d'')]"
  let ?final = "\<lparr>tasks = [\<lparr>id_task = 2, description = ''b'', completed = True\<rparr>,
                     \<lparr>id_task = 3, description = ''d'', completed = False\<rparr>],
            nextId = 4, TASKS_FILE = Some (''2|b|1'' @ [NL] @ ''3|d|0'' @ [NL])\<rparr>"
  have l: "loadTasksFromFile (main_start ?f) = Inr ?loaded" by code_simp
  have d: "distinct (map id_task (tasks ?loaded))" by simp
  have b: "\<forall>task\<in>set (tasks ?loaded). id_task task < nextId ?loaded" by simp
  have c: "nextId ?loaded + int (count_addTask ?reqs) \<le> INT_MAX + 1"
    by (simp add: count_addTask_def INT_MAX_def)
  have r: "main_loop ?reqs ?loaded = ?final" by code_simp
  from distinct_ids_preserved [OF l d b c] r show ?thesis by simp
qed

section \<open>The fields of a line\<close>











end
